theory Spec2Isabelle
  imports Main "HOL-Library.Sublist"
begin

section \<open>Data model: files on disk, errors, observable events\<close>

text \<open>
  The program of \<^verbatim>\<open>reduce_image_size.py\<close> works on the file system only. A path and the
  content of a file are Python strings, modelled as character lists; the disk is a partial
  map from paths to contents, so that a file exists exactly when its path is in the domain
  and its size is the length of its content.

  Every exception the source can raise is a value of type \<open>error\<close>, and every function
  that can raise returns \<open>error + 'a\<close> together with the state it leaves behind: an
  exception does not undo the deletions and writes made before it.

  Besides the disk the state carries a trace of the calls whose order the specification
  talks about: folders yielded by the walk, tasks handed to the pool, tasks finished,
  encodes, and appends to the ledger.
\<close>

type_synonym path = string
type_synonym bytes = string

datatype error =
    FileNotFoundError path
  | UnidentifiedImageError path

datatype event =
    Visit path
  | Submit path
  | Finished path "error option"
  | Save path int
  | Append path

record state =
  files :: "path \<rightharpoonup> bytes"
  trace :: "event list"

definition emit :: "event \<Rightarrow> state \<Rightarrow> state" where
  "emit ev st = st\<lparr>trace := trace st @ [ev]\<rparr>"

section \<open>The library calls the source makes\<close>

subsection \<open>\<^verbatim>\<open>os\<close> and \<^verbatim>\<open>os.path\<close>\<close>

definition os_path_getsize :: "path \<Rightarrow> state \<Rightarrow> error + int" where
  "os_path_getsize p st =
     (case files st p of
        None \<Rightarrow> Inl (FileNotFoundError p)
      | Some content \<Rightarrow> Inr (int (length content)))"

definition os_path_isfile :: "path \<Rightarrow> state \<Rightarrow> bool" where
  "os_path_isfile p st = (files st p \<noteq> None)"

definition os_remove :: "path \<Rightarrow> state \<Rightarrow> (error + unit) \<times> state" where
  "os_remove p st =
     (case files st p of
        None \<Rightarrow> (Inl (FileNotFoundError p), st)
      | Some content \<Rightarrow> (Inr (), st\<lparr>files := (files st)(p := None)\<rparr>))"

text \<open>
  \<^verbatim>\<open>os.rename(src, dst)\<close>, as on POSIX: a missing source raises; renaming a file onto
  itself does nothing; otherwise the destination takes the content and the source
  disappears.
\<close>

definition os_rename :: "path \<Rightarrow> path \<Rightarrow> state \<Rightarrow> (error + unit) \<times> state" where
  "os_rename src dst st =
     (case files st src of
        None \<Rightarrow> (Inl (FileNotFoundError src), st)
      | Some content \<Rightarrow>
          if src = dst then (Inr (), st)
          else (Inr (), st\<lparr>files := (files st)(dst \<mapsto> content, src := None)\<rparr>))"

text \<open>\<^verbatim>\<open>str.endswith\<close> and \<^verbatim>\<open>str.startswith\<close>.\<close>

definition endswith :: "string \<Rightarrow> string \<Rightarrow> bool" where
  "endswith s suf = suffix suf s"

definition startswith :: "string \<Rightarrow> string \<Rightarrow> bool" where
  "startswith s pre = prefix pre s"

text \<open>
  \<^verbatim>\<open>os.path.join(a, p)\<close> of \<^verbatim>\<open>posixpath\<close>, for two arguments: an absolute second part
  replaces the first, an empty first part or one that ends in a slash takes the second
  as it is, and otherwise a slash is put between them.
\<close>

definition os_path_join :: "path \<Rightarrow> path \<Rightarrow> path" where
  "os_path_join a p =
     (if startswith p ''/'' then p
      else if a = [] \<or> endswith a ''/'' then a @ p
      else a @ ''/'' @ p)"

text \<open>\<^verbatim>\<open>str.rfind\<close> for one character: the highest index where it occurs, or \<open>-1\<close>.\<close>

definition rfind :: "char \<Rightarrow> string \<Rightarrow> int" where
  "rfind c s =
     (if c \<in> set s
      then int (length s) - 1 - int (length (takeWhile (\<lambda>x. x \<noteq> c) (rev s)))
      else - 1)"

text \<open>
  \<^verbatim>\<open>os.path.splitext\<close>: the extension starts at the last dot of the last component,
  unless that component has nothing but dots before it.
\<close>

definition os_path_splitext :: "path \<Rightarrow> path \<times> string" where
  "os_path_splitext p =
     (let sepIndex = rfind CHR ''/'' p;
          dotIndex = rfind CHR ''.'' p
      in if dotIndex > sepIndex \<and>
            list_ex (\<lambda>c. c \<noteq> CHR ''.'')
              (take (nat (dotIndex - (sepIndex + 1))) (drop (nat (sepIndex + 1)) p))
         then (take (nat dotIndex) p, drop (nat dotIndex) p)
         else (p, []))"

subsection \<open>The imaging library\<close>

text \<open>
  The decoder and the encoder of the imaging library are not code of this repository.
  They are parameters of the model: \<open>identify\<close> gives the format tag and the decoded
  image of a file content (or nothing when the content is no image), \<open>convert_rgb\<close> is
  \<^verbatim>\<open>img.convert('RGB')\<close>, and \<open>encode img p q\<close> is the content that
  \<^verbatim>\<open>img.save(p, optimize=True, quality=q)\<close> writes to the path \<open>p\<close> (the encoder picks
  the output format from the path). A save is taken to succeed; it replaces the content
  at its path.
\<close>

record 'img imaging =
  identify :: "bytes \<Rightarrow> (string \<times> 'img) option"
  convert_rgb :: "'img \<Rightarrow> 'img"
  encode :: "'img \<Rightarrow> path \<Rightarrow> int \<Rightarrow> bytes"

definition image_open :: "'img imaging \<Rightarrow> path \<Rightarrow> state \<Rightarrow> error + (string \<times> 'img)" where
  "image_open lib p st =
     (case files st p of
        None \<Rightarrow> Inl (FileNotFoundError p)
      | Some content \<Rightarrow>
          (case identify lib content of
             None \<Rightarrow> Inl (UnidentifiedImageError p)
           | Some r \<Rightarrow> Inr r))"

definition image_save :: "'img imaging \<Rightarrow> 'img \<Rightarrow> path \<Rightarrow> int \<Rightarrow> state \<Rightarrow> state" where
  "image_save lib img p quality st =
     emit (Save p quality) (st\<lparr>files := (files st)(p \<mapsto> encode lib img p quality)\<rparr>)"

section \<open>The image shrinker: \<^verbatim>\<open>reduce_image_size\<close>\<close>

text \<open>
  The working path and the image that is encoded: a PNG is converted and written beside
  the input under the extension \<^verbatim>\<open>.jpg\<close>, any other format is written to the input
  path itself.
\<close>

definition working_path :: "string \<Rightarrow> path \<Rightarrow> path" where
  "working_path fmt file_path =
     (if fmt = ''PNG'' then fst (os_path_splitext file_path) @ ''.jpg'' else file_path)"

definition working_image :: "'img imaging \<Rightarrow> string \<Rightarrow> 'img \<Rightarrow> 'img" where
  "working_image lib fmt img = (if fmt = ''PNG'' then convert_rgb lib img else img)"

text \<open>
  The \<^verbatim>\<open>while\<close> loop of lines 29 to 32. It returns the last measured size and the last
  quality. The quality is lowered before the save.
\<close>

function shrink_loop ::
  "'img imaging \<Rightarrow> 'img \<Rightarrow> path \<Rightarrow> int \<Rightarrow> int \<Rightarrow> int \<Rightarrow> state \<Rightarrow> (error + int \<times> int) \<times> state"
where
  "shrink_loop lib img new_file_path max_size original_size quality st =
     (if original_size > max_size \<and> quality > 0 then
        (let quality' = quality - 5;
             st' = image_save lib img new_file_path quality' st
         in case os_path_getsize new_file_path st' of
              Inl e \<Rightarrow> (Inl e, st')
            | Inr original_size' \<Rightarrow>
                shrink_loop lib img new_file_path max_size original_size' quality' st')
      else (Inr (original_size, quality), st))"
  by pat_completeness auto
termination
  by (relation "measure (\<lambda>(lib, img, p, m, sz, quality, st). nat quality)") auto

declare shrink_loop.simps [simp del]

definition reduce_image_size ::
  "'img imaging \<Rightarrow> path \<Rightarrow> int \<Rightarrow> state \<Rightarrow> (error + unit) \<times> state"
where
  "reduce_image_size lib file_path max_size st =
     (case image_open lib file_path st of
        Inl e \<Rightarrow> (Inl e, st)
      | Inr (fmt, img0) \<Rightarrow>
          (let new_file_path = working_path fmt file_path;
               img = working_image lib fmt img0
           in case os_path_getsize new_file_path st of
                Inl e \<Rightarrow> (Inl e, st)
              | Inr original_size \<Rightarrow>
                  (case shrink_loop lib img new_file_path max_size original_size 80 st of
                     (Inl e, st1) \<Rightarrow> (Inl e, st1)
                   | (Inr _, st1) \<Rightarrow>
                       (case os_path_getsize new_file_path st1 of
                          Inl e \<Rightarrow> (Inl e, st1)
                        | Inr final_size \<Rightarrow>
                            if final_size > max_size then os_remove new_file_path st1
                            else
                              (case os_remove file_path st1 of
                                 (Inl e, st2) \<Rightarrow> (Inl e, st2)
                               | (Inr _, st2) \<Rightarrow> os_rename new_file_path file_path st2)))))"

section \<open>The ledger of processed folders\<close>

text \<open>
  The ledger is a text file. Text is modelled as the sequence of its code points (below
  256, the range of a HOL character), read and written as it is.

  Reading in text mode translates \<^verbatim>\<open>\r\n\<close> and \<^verbatim>\<open>\r\<close> to \<^verbatim>\<open>\n\<close>
  (universal newlines); \<^verbatim>\<open>str.splitlines\<close> then cuts at every line boundary of
  Python: line feed, carriage return (with a following line feed), vertical tab, form
  feed, the separators \<open>0x1C\<close> to \<open>0x1E\<close>, and next line \<open>0x85\<close>. A last line needs no
  terminator, and a terminator at the very end starts no further line.
\<close>

definition is_linebreak :: "char \<Rightarrow> bool" where
  "is_linebreak c \<longleftrightarrow>
     c \<in> {CHR 0x0A, CHR 0x0B, CHR 0x0C, CHR 0x0D, CHR 0x1C, CHR 0x1D, CHR 0x1E, CHR 0x85}"

fun universal_newlines :: "string \<Rightarrow> string" where
  "universal_newlines [] = []"
| "universal_newlines [c] = [if c = CHR 0x0D then CHR 0x0A else c]"
| "universal_newlines (c # d # cs) =
     (if c = CHR 0x0D \<and> d = CHR 0x0A then CHR 0x0A # universal_newlines cs
      else if c = CHR 0x0D then CHR 0x0A # universal_newlines (d # cs)
      else c # universal_newlines (d # cs))"

fun splitlines_from :: "string \<Rightarrow> string \<Rightarrow> string list" where
  "splitlines_from line [] = (if line = [] then [] else [line])"
| "splitlines_from line [c] =
     (if is_linebreak c then [line] else [line @ [c]])"
| "splitlines_from line (c # d # cs) =
     (if c = CHR 0x0D \<and> d = CHR 0x0A then line # splitlines_from [] cs
      else if is_linebreak c then line # splitlines_from [] (d # cs)
      else splitlines_from (line @ [c]) (d # cs))"

definition splitlines :: "string \<Rightarrow> string list" where
  "splitlines s = splitlines_from [] s"

text \<open>
  Lines 56 to 60: the ledger is read once, and is empty when the file is missing. The
  file is only read after \<^verbatim>\<open>os.path.isfile\<close> has found it, so \<open>read_text\<close> has no
  error to report for a missing file.
\<close>

definition read_text :: "path \<Rightarrow> state \<Rightarrow> string" where
  "read_text p st =
     (case files st p of None \<Rightarrow> [] | Some content \<Rightarrow> universal_newlines content)"

definition load_ledger :: "path \<Rightarrow> state \<Rightarrow> string list" where
  "load_ledger processed_file st =
     (if os_path_isfile processed_file st then splitlines (read_text processed_file st)
      else [])"

text \<open>Lines 79 and 80: the folder's path and a line feed are appended, creating the file.\<close>

definition append_ledger :: "path \<Rightarrow> path \<Rightarrow> state \<Rightarrow> state" where
  "append_ledger processed_file foldername st =
     emit (Append foldername)
       (st\<lparr>files := (files st)(processed_file \<mapsto>
              (case files st processed_file of None \<Rightarrow> [] | Some content \<Rightarrow> content)
                @ foldername @ [CHR 0x0A])\<rparr>)"

section \<open>The folder walker: \<^verbatim>\<open>process_images\<close>\<close>

text \<open>
  \<^verbatim>\<open>str.lower\<close>, on the code points below 256: the letters A to Z and the upper case
  letters of Latin-1 move up by 32.
\<close>

definition lower_char :: "char \<Rightarrow> char" where
  "lower_char c =
     (let n = (of_char c :: nat)
      in if (65 \<le> n \<and> n \<le> 90) \<or> (192 \<le> n \<and> n \<le> 222 \<and> n \<noteq> 215)
         then char_of (n + 32) else c)"

definition lower :: "string \<Rightarrow> string" where
  "lower s = map lower_char s"

text \<open>Line 71: \<^verbatim>\<open>filename.lower().endswith(('.png', '.jpg', '.jpeg'))\<close>.\<close>

definition is_image_name :: "string \<Rightarrow> bool" where
  "is_image_name filename =
     list_ex (\<lambda>ext. endswith (lower filename) ext) [''.png'', ''.jpg'', ''.jpeg'']"

text \<open>Line 64: \<^verbatim>\<open>any(foldername.endswith(folder) for folder in excluded_folders)\<close>.\<close>

definition is_excluded :: "string list \<Rightarrow> path \<Rightarrow> bool" where
  "is_excluded excluded_folders foldername =
     list_ex (\<lambda>folder. endswith foldername folder) excluded_folders"

text \<open>
  What \<^verbatim>\<open>os.walk\<close> finds under the root: for every folder the names of its files and its
  subfolders with their names, in the order of the listing. The walk is top-down, so a
  folder is listed before its subfolders are entered.
\<close>

datatype dir = Dir (dir_files: "string list") (dir_subs: "(string \<times> dir) list")

text \<open>
  Lines 70 to 74, the loop over the file names of one folder: the paths handed to the
  pool, in order. A size probe that raises ends the loop; the tasks handed over before
  it stay in the pool.
\<close>

fun submit_oversized ::
  "path \<Rightarrow> int \<Rightarrow> string list \<Rightarrow> state \<Rightarrow> (path list \<times> error option) \<times> state"
where
  "submit_oversized foldername max_size [] st = (([], None), st)"
| "submit_oversized foldername max_size (filename # rest) st =
     (if is_image_name filename then
        (let file_path = os_path_join foldername filename
         in case os_path_getsize file_path st of
              Inl e \<Rightarrow> (([], Some e), st)
            | Inr sz \<Rightarrow>
                if sz > max_size then
                  (case submit_oversized foldername max_size rest (emit (Submit file_path) st) of
                     ((futures, raised), st') \<Rightarrow> ((file_path # futures, raised), st'))
                else submit_oversized foldername max_size rest st)
      else submit_oversized foldername max_size rest st)"

text \<open>
  The worker pool. The order in which concurrent tasks take their steps is not fixed by
  the source; the model runs the tasks of one folder one after the other, in the order of
  submission, after the folder's file names have been gone through. Every task that was
  submitted runs, whatever the others do: leaving the \<^verbatim>\<open>with\<close> block of the executor
  waits for all of them, also when an exception is on its way out.
\<close>

definition outcome :: "error + unit \<Rightarrow> error option" where
  "outcome r = (case r of Inl e \<Rightarrow> Some e | Inr _ \<Rightarrow> None)"

fun run_tasks ::
  "'img imaging \<Rightarrow> int \<Rightarrow> path list \<Rightarrow> state \<Rightarrow> (error + unit) list \<times> state"
where
  "run_tasks lib max_size [] st = ([], st)"
| "run_tasks lib max_size (file_path # rest) st =
     (case reduce_image_size lib file_path max_size st of
        (r, st1) \<Rightarrow>
          (case run_tasks lib max_size rest (emit (Finished file_path (outcome r)) st1) of
             (rs, st2) \<Rightarrow> (r # rs, st2)))"

text \<open>
  Lines 76 and 77: \<^verbatim>\<open>future.result()\<close> raises again what the task raised, so the loop
  over the finished tasks ends at the first one that failed.
\<close>

fun first_error :: "(error + unit) list \<Rightarrow> error option" where
  "first_error [] = None"
| "first_error (Inl e # rs) = Some e"
| "first_error (Inr u # rs) = first_error rs"

text \<open>Lines 69 to 80, the work on one folder that is neither excluded nor in the ledger.\<close>

definition process_folder ::
  "'img imaging \<Rightarrow> path \<Rightarrow> int \<Rightarrow> path \<Rightarrow> string list \<Rightarrow> state \<Rightarrow> (error + unit) \<times> state"
where
  "process_folder lib processed_file max_size foldername filenames st =
     (case submit_oversized foldername max_size filenames st of
        ((futures, raised), st1) \<Rightarrow>
          (case run_tasks lib max_size futures st1 of
             (results, st2) \<Rightarrow>
               (case raised of
                  Some e \<Rightarrow> (Inl e, st2)
                | None \<Rightarrow>
                    (case first_error results of
                       Some e \<Rightarrow> (Inl e, st2)
                     | None \<Rightarrow> (Inr (), append_ledger processed_file foldername st2)))))"

text \<open>
  Lines 63 to 80, the loop over \<^verbatim>\<open>os.walk(root_folder)\<close>. An excluded folder empties
  the list of subfolders the walk would enter; a folder found in the ledger is skipped
  but its subfolders are entered; an exception ends the walk.
\<close>

function
  walk ::
    "'img imaging \<Rightarrow> path \<Rightarrow> string list \<Rightarrow> int \<Rightarrow> string list \<Rightarrow> path \<Rightarrow> dir \<Rightarrow> state
      \<Rightarrow> (error + unit) \<times> state"
  and walk_subfolders ::
    "'img imaging \<Rightarrow> path \<Rightarrow> string list \<Rightarrow> int \<Rightarrow> string list \<Rightarrow> path \<Rightarrow> (string \<times> dir) list
      \<Rightarrow> state \<Rightarrow> (error + unit) \<times> state"
where
  "walk lib processed_file excluded_folders max_size processed_folders foldername
      (Dir filenames subfolders) st =
     (let st0 = emit (Visit foldername) st
      in if is_excluded excluded_folders foldername then (Inr (), st0)
         else if foldername \<notin> set processed_folders then
           (case process_folder lib processed_file max_size foldername filenames st0 of
              (Inl e, st1) \<Rightarrow> (Inl e, st1)
            | (Inr u, st1) \<Rightarrow>
                walk_subfolders lib processed_file excluded_folders max_size processed_folders
                  foldername subfolders st1)
         else walk_subfolders lib processed_file excluded_folders max_size processed_folders
                foldername subfolders st0)"
| "walk_subfolders lib processed_file excluded_folders max_size processed_folders foldername
      [] st = (Inr (), st)"
| "walk_subfolders lib processed_file excluded_folders max_size processed_folders foldername
      ((name, d) # rest) st =
     (case walk lib processed_file excluded_folders max_size processed_folders
             (os_path_join foldername name) d st of
        (Inl e, st1) \<Rightarrow> (Inl e, st1)
      | (Inr u, st1) \<Rightarrow>
          walk_subfolders lib processed_file excluded_folders max_size processed_folders
            foldername rest st1)"
  by pat_completeness auto
termination
  by (relation "measure (\<lambda>x. case x of
        Inl (lib, pf, ex, m, pr, f, d, st) \<Rightarrow> 2 * size d
      | Inr (lib, pf, ex, m, pr, f, ds, st) \<Rightarrow> 2 * size_list (size_prod (\<lambda>n. 0) size) ds + 1)")
    auto

declare walk.simps [simp del] walk_subfolders.simps [simp del]

text \<open>
  Lines 55 to 80. The tree is the listing the walk finds under \<^verbatim>\<open>root_folder\<close>; the
  tasks of a folder only touch files of that folder, whose listing has been taken when
  they start.
\<close>

definition process_images ::
  "'img imaging \<Rightarrow> path \<Rightarrow> string list \<Rightarrow> int \<Rightarrow> dir \<Rightarrow> state \<Rightarrow> (error + unit) \<times> state"
where
  "process_images lib root_folder excluded_folders max_size tree st =
     (let processed_file = os_path_join root_folder ''.processed_folders.txt'';
          processed_folders = load_ledger processed_file st
      in walk lib processed_file excluded_folders max_size processed_folders root_folder tree st)"

section \<open>Reference definitions for stating the properties\<close>

text \<open>
  The qualities the loop would go through from a starting quality if no encode ever
  fitted, and the part of them it does go through: up to and including the first whose
  encoded size is within the ceiling.
\<close>

function down_from :: "int \<Rightarrow> int list" where
  "down_from q = (if q > 0 then (q - 5) # down_from (q - 5) else [])"
  by pat_completeness auto
termination
  by (relation "measure nat") auto

declare down_from.simps [simp del]

fun encodes_until_fit :: "(int \<Rightarrow> int) \<Rightarrow> int \<Rightarrow> int list \<Rightarrow> int list" where
  "encodes_until_fit size_at max_size [] = []"
| "encodes_until_fit size_at max_size (q # qs) =
     (if size_at q \<le> max_size then [q] else q # encodes_until_fit size_at max_size qs)"

definition encoded_size :: "'img imaging \<Rightarrow> 'img \<Rightarrow> path \<Rightarrow> int \<Rightarrow> int" where
  "encoded_size lib img p q = int (length (encode lib img p q))"

definition loop_qualities ::
  "'img imaging \<Rightarrow> 'img \<Rightarrow> path \<Rightarrow> int \<Rightarrow> int \<Rightarrow> int \<Rightarrow> int list"
where
  "loop_qualities lib img p max_size original_size quality =
     (if original_size > max_size
      then encodes_until_fit (encoded_size lib img p) max_size (down_from quality)
      else [])"

definition saves :: "'img imaging \<Rightarrow> 'img \<Rightarrow> path \<Rightarrow> int list \<Rightarrow> state \<Rightarrow> state" where
  "saves lib img p qs st = foldl (\<lambda>s q. image_save lib img p q s) st qs"

text \<open>
  Reading a trace: the paths submitted to the pool and the paths of the tasks that
  finished, in order; the events of the walker itself; a task that ended in an exception;
  the events of a task.
\<close>

fun submitted :: "event list \<Rightarrow> path list" where
  "submitted [] = []"
| "submitted (Submit p # evs) = p # submitted evs"
| "submitted (ev # evs) = submitted evs"

fun finished :: "event list \<Rightarrow> path list" where
  "finished [] = []"
| "finished (Finished p r # evs) = p # finished evs"
| "finished (ev # evs) = finished evs"

fun is_folder_event :: "event \<Rightarrow> bool" where
  "is_folder_event (Visit f) = True"
| "is_folder_event (Append f) = True"
| "is_folder_event ev = False"

fun is_failure :: "event \<Rightarrow> bool" where
  "is_failure (Finished p (Some e)) = True"
| "is_failure ev = False"

fun is_task_event :: "event \<Rightarrow> bool" where
  "is_task_event (Save p q) = True"
| "is_task_event (Finished p r) = True"
| "is_task_event ev = False"

text \<open>
  What the specification asks of a file name for a task to be dispatched: the name ends,
  ignoring case, in one of the three extensions, and the file at the joined path is larger
  than the ceiling.
\<close>

definition oversized_image :: "state \<Rightarrow> path \<Rightarrow> int \<Rightarrow> string \<Rightarrow> bool" where
  "oversized_image st foldername max_size filename \<longleftrightarrow>
     is_image_name filename \<and>
     (case files st (os_path_join foldername filename) of
        None \<Rightarrow> False
      | Some content \<Rightarrow> int (length content) > max_size)"

text \<open>
  The shape of the events of a walk. A walk that returns has no failed task. A walk that
  raises ends inside the work on one folder \<open>f\<close>: after \<open>Visit f\<close> there are only
  submissions and task events, every submitted task has finished, and no task failed in
  the folders before.
\<close>

definition run_shape :: "error + unit \<Rightarrow> event list \<Rightarrow> bool" where
  "run_shape r evs \<longleftrightarrow>
     (case r of
        Inr u \<Rightarrow> (\<forall>ev \<in> set evs. \<not> is_failure ev)
      | Inl e \<Rightarrow>
          (\<exists>before f batch.
             evs = before @ Visit f # batch \<and>
             (\<forall>ev \<in> set before. \<not> is_failure ev) \<and>
             (\<forall>ev \<in> set batch. \<not> is_folder_event ev) \<and>
             finished batch = submitted batch))"

text \<open>
  The tree with every folder cut off below the point where the walk finds it excluded:
  such a folder keeps its place but loses its files and its subfolders.
\<close>

function
  prune :: "string list \<Rightarrow> path \<Rightarrow> dir \<Rightarrow> dir"
  and prune_subfolders :: "string list \<Rightarrow> path \<Rightarrow> (string \<times> dir) list \<Rightarrow> (string \<times> dir) list"
where
  "prune excluded_folders foldername (Dir filenames subfolders) =
     (if is_excluded excluded_folders foldername then Dir [] []
      else Dir filenames (prune_subfolders excluded_folders foldername subfolders))"
| "prune_subfolders excluded_folders foldername [] = []"
| "prune_subfolders excluded_folders foldername ((name, d) # rest) =
     (name, prune excluded_folders (os_path_join foldername name) d)
       # prune_subfolders excluded_folders foldername rest"
  by pat_completeness auto
termination
  by (relation "measure (\<lambda>x. case x of
        Inl (ex, f, d) \<Rightarrow> 2 * size d
      | Inr (ex, f, ds) \<Rightarrow> 2 * size_list (size_prod (\<lambda>n. 0) size) ds + 1)")
    auto

text \<open>
  The text of the ledger file (empty when the file is missing), the condition that it is
  empty or ends with a line feed, and the text that the appends for a list of folders
  add to it.
\<close>

definition ledger_text :: "path \<Rightarrow> state \<Rightarrow> string" where
  "ledger_text processed_file st =
     (case files st processed_file of None \<Rightarrow> [] | Some content \<Rightarrow> content)"

definition ends_with_newline :: "string \<Rightarrow> bool" where
  "ends_with_newline content \<longleftrightarrow> content = [] \<or> last content = CHR 0x0A"

definition ledger_lines :: "string list \<Rightarrow> string" where
  "ledger_lines folders = concat (map (\<lambda>foldername. foldername @ [CHR 0x0A]) folders)"

text \<open>
  The folders the walk works on or skips as processed, in its order: every folder it
  reaches that is not excluded.
\<close>

function
  walked :: "string list \<Rightarrow> path \<Rightarrow> dir \<Rightarrow> path list"
  and walked_subfolders :: "string list \<Rightarrow> path \<Rightarrow> (string \<times> dir) list \<Rightarrow> path list"
where
  "walked excluded_folders foldername (Dir filenames subfolders) =
     (if is_excluded excluded_folders foldername then []
      else foldername # walked_subfolders excluded_folders foldername subfolders)"
| "walked_subfolders excluded_folders foldername [] = []"
| "walked_subfolders excluded_folders foldername ((name, d) # rest) =
     walked excluded_folders (os_path_join foldername name) d
       @ walked_subfolders excluded_folders foldername rest"
  by pat_completeness auto
termination
  by (relation "measure (\<lambda>x. case x of
        Inl (ex, f, d) \<Rightarrow> 2 * size d
      | Inr (ex, f, ds) \<Rightarrow> 2 * size_list (size_prod (\<lambda>n. 0) size) ds + 1)")
    auto

text \<open>
  Two runs in succession, the second over the listing \<open>tree2\<close> on the disk the first
  leaves: the result of the second run and the events it adds to the trace.
\<close>

definition rerun ::
  "'img imaging \<Rightarrow> path \<Rightarrow> string list \<Rightarrow> int \<Rightarrow> dir \<Rightarrow> dir \<Rightarrow> state
    \<Rightarrow> (error + unit) \<times> event list"
where
  "rerun lib root_folder excluded_folders max_size tree tree2 st =
     (let st1 = snd (process_images lib root_folder excluded_folders max_size tree st);
          second = process_images lib root_folder excluded_folders max_size tree2 st1
      in (fst second, drop (length (trace st1)) (trace (snd second))))"

section \<open>Concrete inputs\<close>

text \<open>
  A small imaging library to run the model on: a content is an image when it starts
  with a format mark, and an encode at quality \<open>q\<close> has the mark and \<open>q div 10\<close> more
  bytes, so no encode is shorter than three bytes.
\<close>

definition sample_lib :: "string imaging" where
  "sample_lib =
     \<lparr>identify = (\<lambda>content.
         if startswith content ''PNG'' then Some (''PNG'', content)
         else if startswith content ''JPG'' then Some (''JPEG'', content)
         else None),
      convert_rgb = (\<lambda>img. img),
      encode = (\<lambda>img p q. ''JPG'' @ replicate (nat q div 10) CHR ''x'')\<rparr>"

definition disk :: "(path \<times> bytes) list \<Rightarrow> state" where
  "disk fs = \<lparr>files = map_of fs, trace = []\<rparr>"

definition jpeg_disk :: state where
  "jpeg_disk = disk [(''a.jpg'', ''JPGxxxxxxxxx'')]"

definition png_disk :: state where
  "png_disk = disk [(''a.png'', ''PNGxxxxxxxxx'')]"

text \<open>
  Directory trees with their disks: two oversized PNG files with no \<^verbatim>\<open>.jpg\<close>
  beside them and a subfolder; a folder of files with mixed names and sizes; and a tree
  with a folder \<^verbatim>\<open>b\<close> to exclude, which holds oversized images and a subfolder.
\<close>

definition two_png_disk :: state where
  "two_png_disk = disk [(''r/a.png'', ''PNGxxxxxxxxx''), (''r/b.png'', ''PNGxxxxxxxxx'')]"

definition two_png_tree :: dir where
  "two_png_tree = Dir [''a.png'', ''b.png''] [(''s'', Dir [] [])]"


definition album_disk :: state where
  "album_disk =
     disk [(''root/a/img1.png'', ''PNGxxxxxxxxx''), (''root/a/img1.jpg'', ''JPGxxxxxxxxx''),
           (''root/b/img2.jpg'', ''JPGxxxxxxxxx''), (''root/b/c/img3.jpg'', ''JPGxxxxxxxxx'')]"

definition album_tree :: dir where
  "album_tree = Dir []
     [(''b'', Dir [''img2.jpg''] [(''c'', Dir [''img3.jpg''] [])]),
      (''a'', Dir [''img1.png'', ''img1.jpg''] [])]"

definition album_tree_without_b :: dir where
  "album_tree_without_b = Dir []
     [(''b'', Dir [] []),
      (''a'', Dir [''img1.png'', ''img1.jpg''] [])]"

text \<open>
  A tree in which nothing is oversized outside the excluded folder \<^verbatim>\<open>b\<close>, with its
  listing after a run; a tree with a line feed in a folder name; a ledger whose last line
  has no line feed.
\<close>

definition small_disk :: state where
  "small_disk = disk [(''root/a/small.jpg'', ''JPGx''), (''root/b/big.jpg'', ''JPGxxxxxxxxx'')]"

definition small_tree :: dir where
  "small_tree = Dir [] [(''a'', Dir [''small.jpg''] []), (''b'', Dir [''big.jpg''] [])]"

definition small_tree_after :: dir where
  "small_tree_after =
     Dir [''.processed_folders.txt'']
       [(''a'', Dir [''small.jpg''] []), (''b'', Dir [''big.jpg''] [])]"

definition newline_tree :: dir where
  "newline_tree = Dir [] [([CHR ''a'', CHR 0x0A, CHR ''b''], Dir [] [])]"

definition unterminated_ledger_disk :: state where
  "unterminated_ledger_disk = disk [(''r/.processed_folders.txt'', ''x'')]"

section \<open>The quality loop\<close>

lemma down_from_80:
  "down_from 80 = [75, 70, 65, 60, 55, 50, 45, 40, 35, 30, 25, 20, 15, 10, 5, 0]"
  by (simp add: down_from.simps)

lemma getsize_after_save:
  "os_path_getsize p (image_save lib img p q st) = Inr (encoded_size lib img p q)"
  by (simp add: os_path_getsize_def image_save_def emit_def encoded_size_def)

text \<open>
  The loop never raises: it ends with the saves of \<open>loop_qualities\<close> done, in order, and
  returns the size and quality of the last of them (or what it started with).
\<close>

lemma shrink_loop_eq:
  "shrink_loop lib img p max_size sz q st =
     (let qs = loop_qualities lib img p max_size sz q
      in (Inr (if qs = [] then (sz, q) else (encoded_size lib img p (last qs), last qs)),
          saves lib img p qs st))"
proof (induction lib img p max_size sz q st rule: shrink_loop.induct)
  case (1 lib img p max_size sz q st)
  show ?case
  proof (cases "sz > max_size \<and> q > 0")
    case False
    then show ?thesis
      by (auto simp: shrink_loop.simps [of lib img p max_size sz q st] loop_qualities_def
            saves_def down_from.simps [of q])
  next
    case True
    let ?q' = "q - 5"
    let ?st' = "image_save lib img p ?q' st"
    have IH: "shrink_loop lib img p max_size (encoded_size lib img p ?q') ?q' ?st' =
      (let qs = loop_qualities lib img p max_size (encoded_size lib img p ?q') ?q'
       in (Inr (if qs = [] then (encoded_size lib img p ?q', ?q')
                else (encoded_size lib img p (last qs), last qs)),
           saves lib img p qs ?st'))"
      using "1.IH" [OF True refl refl getsize_after_save] .
    have unfold: "loop_qualities lib img p max_size sz q =
        ?q' # loop_qualities lib img p max_size (encoded_size lib img p ?q') ?q'"
      using True by (simp add: loop_qualities_def down_from.simps [of q])
    show ?thesis
      using True
      by (simp add: shrink_loop.simps [of lib img p max_size sz q st] getsize_after_save IH
            unfold Let_def saves_def)
  qed
qed

lemma trace_saves: "trace (saves lib img p qs st) = trace st @ map (Save p) qs"
  by (induction qs arbitrary: st) (simp_all add: saves_def image_save_def emit_def)

lemma files_saves:
  "files (saves lib img p qs st) =
     (if qs = [] then files st else (files st)(p \<mapsto> encode lib img p (last qs)))"
  by (induction qs arbitrary: st) (simp_all add: saves_def image_save_def emit_def)

lemma getsize_saves:
  "os_path_getsize p (saves lib img p qs st) =
     (if qs = [] then os_path_getsize p st else Inr (encoded_size lib img p (last qs)))"
  by (simp add: os_path_getsize_def files_saves encoded_size_def)

lemma encodes_until_fit_prefix: "prefix (encodes_until_fit f m cs) cs"
  by (induction cs) simp_all

lemma encodes_until_fit_Nil [simp]: "encodes_until_fit f m cs = [] \<longleftrightarrow> cs = []"
  by (cases cs) simp_all

lemma encodes_until_fit_last:
  "cs \<noteq> [] \<Longrightarrow>
     f (last (encodes_until_fit f m cs)) \<le> m \<or> encodes_until_fit f m cs = cs"
  by (induction cs) auto

lemma loop_qualities_prefix: "prefix (loop_qualities lib img p m sz q) (down_from q)"
  by (simp add: loop_qualities_def encodes_until_fit_prefix)

text \<open>
  C10: the quality loop always ends. Started at quality 80 it returns (it does not raise),
  after at most 16 encodes, none of them at a negative quality; the quality it ends with
  is not negative, and it ends either with a size within the ceiling or at quality 0.
\<close>

theorem shrink_loop_stops_within_16_encodes:
  "\<exists>final_size final_quality st' qs.
     shrink_loop lib img p max_size original_size 80 st = (Inr (final_size, final_quality), st')
     \<and> trace st' = trace st @ map (Save p) qs
     \<and> length qs \<le> 16
     \<and> (\<forall>q \<in> set qs. 0 \<le> q)
     \<and> 0 \<le> final_quality
     \<and> (final_size \<le> max_size \<or> final_quality = 0)"
proof -
  define qs where "qs = loop_qualities lib img p max_size original_size 80"
  have pre: "prefix qs (down_from 80)"
    unfolding qs_def by (rule loop_qualities_prefix)
  then have len: "length qs \<le> 16"
    using prefix_length_le [OF pre] by (simp add: down_from_80)
  have "set qs \<subseteq> set (down_from 80)"
    using pre by (rule set_mono_prefix)
  then have nonneg: "\<forall>q \<in> set qs. 0 \<le> q"
    by (auto simp: down_from_80)
  show ?thesis
  proof (cases "qs = []")
    case True
    then have "original_size \<le> max_size"
      by (auto simp: qs_def loop_qualities_def down_from_80 split: if_splits)
    with True show ?thesis
      by (simp add: shrink_loop_eq qs_def [symmetric] trace_saves)
  next
    case False
    then have big: "original_size > max_size"
      by (auto simp: qs_def loop_qualities_def split: if_splits)
    then have eq: "qs = encodes_until_fit (encoded_size lib img p) max_size (down_from 80)"
      by (simp add: qs_def loop_qualities_def)
    have "encoded_size lib img p (last qs) \<le> max_size \<or> qs = down_from 80"
      using encodes_until_fit_last [of "down_from 80" "encoded_size lib img p" max_size]
      by (simp add: eq down_from_80)
    then have fin: "encoded_size lib img p (last qs) \<le> max_size \<or> last qs = 0"
      by (auto simp: down_from_80)
    have "0 \<le> last qs"
      using False nonneg last_in_set by blast
    with False fin len nonneg show ?thesis
      by (simp add: shrink_loop_eq qs_def [symmetric] trace_saves Let_def)
        (metis order_refl)
  qed
qed

theorem shrink_loop_stops_within_16_encodes_witness:
  "\<exists>final_size final_quality st' qs.
     shrink_loop sample_lib ''JPGxxxxxxxxx'' ''a.jpg'' 2 12 80 jpeg_disk
       = (Inr (final_size, final_quality), st')
     \<and> trace st' = trace jpeg_disk @ map (Save ''a.jpg'') qs
     \<and> length qs \<le> 16
     \<and> (\<forall>q \<in> set qs. 0 \<le> q)
     \<and> 0 \<le> final_quality
     \<and> (final_size \<le> 2 \<or> final_quality = 0)"
  using shrink_loop_stops_within_16_encodes
    [of sample_lib "''JPGxxxxxxxxx''" "''a.jpg''" 2 12 jpeg_disk] .

text \<open>
  C6, as the code has it: the quality is lowered before the first save, so the encodes of
  a run are at 75, 70, 65 and so on down to 0, each one made only after the size measured
  before it (of the file found at the working path for the first, of the previous encode
  for the others) exceeded the ceiling, and none at all when the file found at the working
  path is within the ceiling.
\<close>

theorem encode_qualities_start_at_75:
  "trace (snd (shrink_loop lib img p max_size original_size 80 st))
     = trace st @ map (Save p)
         (if original_size > max_size
          then encodes_until_fit (encoded_size lib img p) max_size
                 [75, 70, 65, 60, 55, 50, 45, 40, 35, 30, 25, 20, 15, 10, 5, 0]
          else [])"
  by (simp add: shrink_loop_eq trace_saves loop_qualities_def down_from_80 Let_def)

theorem encode_qualities_start_at_75_witness:
  "trace (snd (shrink_loop sample_lib ''JPGxxxxxxxxx'' ''a.jpg'' 9 12 80 jpeg_disk))
     = [Save ''a.jpg'' 75, Save ''a.jpg'' 70, Save ''a.jpg'' 65]"
  using encode_qualities_start_at_75 [of sample_lib "''JPGxxxxxxxxx''" "''a.jpg''" 9 12 jpeg_disk]
  by (simp add: encoded_size_def sample_lib_def jpeg_disk_def disk_def)

text \<open>
  C6 as the specification states it fails: a 12-byte JPEG with a ceiling of 10 bytes is
  encoded once, at quality 75, and never at quality 80.
\<close>

theorem first_encode_at_80_counterexample:
  "os_path_getsize ''a.jpg'' jpeg_disk = Inr 12
   \<and> trace (snd (reduce_image_size sample_lib ''a.jpg'' 10 jpeg_disk)) = [Save ''a.jpg'' 75]
   \<and> Save ''a.jpg'' 80 \<notin> set (trace (snd (reduce_image_size sample_lib ''a.jpg'' 10 jpeg_disk)))"
  by code_simp

section \<open>The shrinker on one file\<close>

text \<open>
  C4: a PNG whose sibling path with the extension \<^verbatim>\<open>.jpg\<close> is not on disk. The first
  size measurement, which is of the working path, raises the file-not-found error; the
  state is the one before the call, so nothing was encoded and the PNG is as it was.
\<close>

theorem png_without_sibling_raises_before_encoding:
  assumes "image_open lib file_path st = Inr (''PNG'', img)"
    and "files st (fst (os_path_splitext file_path) @ ''.jpg'') = None"
  shows "working_path ''PNG'' file_path = fst (os_path_splitext file_path) @ ''.jpg''
       \<and> reduce_image_size lib file_path max_size st
           = (Inl (FileNotFoundError (fst (os_path_splitext file_path) @ ''.jpg'')), st)"
  using assms
  by (simp add: reduce_image_size_def working_path_def os_path_getsize_def)

theorem png_without_sibling_raises_before_encoding_witness:
  "image_open sample_lib ''a.png'' png_disk = Inr (''PNG'', ''PNGxxxxxxxxx'')
   \<and> files png_disk (fst (os_path_splitext ''a.png'') @ ''.jpg'') = None
   \<and> working_path ''PNG'' ''a.png'' = fst (os_path_splitext ''a.png'') @ ''.jpg''
   \<and> reduce_image_size sample_lib ''a.png'' 10 png_disk
       = (Inl (FileNotFoundError (fst (os_path_splitext ''a.png'') @ ''.jpg'')), png_disk)"
proof -
  have h1: "image_open sample_lib ''a.png'' png_disk = Inr (''PNG'', ''PNGxxxxxxxxx'')"
    by code_simp
  have h2: "files png_disk (fst (os_path_splitext ''a.png'') @ ''.jpg'') = None"
    by code_simp
  show ?thesis
    using png_without_sibling_raises_before_encoding [OF h1 h2, of 10] h1 h2 by simp
qed

text \<open>
  C3: an input that is not a PNG has the input path as its working path. When the loop
  ends with a size within the ceiling, the function removes the file at the input path,
  the rename of that path onto itself raises the file-not-found error, and no file is
  left at the input path.
\<close>

theorem non_png_success_branch_destroys_file:
  assumes "image_open lib file_path st = Inr (fmt, img)"
    and "fmt \<noteq> ''PNG''"
    and "os_path_getsize file_path st = Inr original_size"
    and "shrink_loop lib img file_path max_size original_size 80 st
           = (Inr (final_size, final_quality), st1)"
    and "final_size \<le> max_size"
  shows "working_path fmt file_path = file_path
       \<and> reduce_image_size lib file_path max_size st
           = (Inl (FileNotFoundError file_path), st1\<lparr>files := (files st1)(file_path := None)\<rparr>)
       \<and> files (snd (reduce_image_size lib file_path max_size st)) file_path = None"
proof -
  define qs where "qs = loop_qualities lib img file_path max_size original_size 80"
  have wp: "working_path fmt file_path = file_path" and wi: "working_image lib fmt img = img"
    using assms(2) by (simp_all add: working_path_def working_image_def)
  have st1: "st1 = saves lib img file_path qs st"
    and fin: "final_size = (if qs = [] then original_size
                            else encoded_size lib img file_path (last qs))"
    using assms(4) by (auto simp: shrink_loop_eq qs_def Let_def split: if_splits)
  have size1: "os_path_getsize file_path st1 = Inr final_size"
    using assms(3) by (simp add: st1 fin getsize_saves)
  then obtain content where content: "files st1 file_path = Some content"
    by (auto simp: os_path_getsize_def split: option.splits)
  have run: "reduce_image_size lib file_path max_size st
      = (Inl (FileNotFoundError file_path), st1\<lparr>files := (files st1)(file_path := None)\<rparr>)"
    using assms(1,3,4,5) size1 content
    by (simp add: reduce_image_size_def wp wi os_remove_def os_rename_def)
  show ?thesis
    using wp run by simp
qed

theorem non_png_success_branch_destroys_file_witness:
  "image_open sample_lib ''a.jpg'' jpeg_disk = Inr (''JPEG'', ''JPGxxxxxxxxx'')
   \<and> ''JPEG'' \<noteq> ''PNG''
   \<and> os_path_getsize ''a.jpg'' jpeg_disk = Inr 12
   \<and> fst (shrink_loop sample_lib ''JPGxxxxxxxxx'' ''a.jpg'' 10 12 80 jpeg_disk) = Inr (10, 75)
   \<and> (10::int) \<le> 10
   \<and> fst (reduce_image_size sample_lib ''a.jpg'' 10 jpeg_disk) = Inl (FileNotFoundError ''a.jpg'')
   \<and> files (snd (reduce_image_size sample_lib ''a.jpg'' 10 jpeg_disk)) ''a.jpg'' = None"
proof -
  let ?st1 = "snd (shrink_loop sample_lib ''JPGxxxxxxxxx'' ''a.jpg'' 10 12 80 jpeg_disk)"
  have h1: "image_open sample_lib ''a.jpg'' jpeg_disk = Inr (''JPEG'', ''JPGxxxxxxxxx'')"
    by code_simp
  have h2: "''JPEG'' \<noteq> ''PNG''"
    by simp
  have h3: "os_path_getsize ''a.jpg'' jpeg_disk = Inr 12"
    by code_simp
  have h4': "fst (shrink_loop sample_lib ''JPGxxxxxxxxx'' ''a.jpg'' 10 12 80 jpeg_disk)
               = Inr (10, 75)"
    by code_simp
  have h4: "shrink_loop sample_lib ''JPGxxxxxxxxx'' ''a.jpg'' 10 12 80 jpeg_disk
              = (Inr (10, 75), ?st1)"
    using h4' by (simp add: prod_eq_iff)
  have h5: "(10::int) \<le> 10"
    by simp
  show ?thesis
    using non_png_success_branch_destroys_file [OF h1 h2 h3 h4 h5] h1 h3 h4' by simp
qed

text \<open>
  C1 at a concrete input: a JPEG of 12 bytes, a ceiling of 10 bytes, and an encoder that
  gives 10 bytes at quality 75. The call raises and leaves no file at the path.
\<close>

theorem shrinkable_jpeg_is_lost:
  "os_path_getsize ''a.jpg'' jpeg_disk = Inr 12
   \<and> encoded_size sample_lib ''JPGxxxxxxxxx'' ''a.jpg'' 75 = 10
   \<and> fst (reduce_image_size sample_lib ''a.jpg'' 10 jpeg_disk) = Inl (FileNotFoundError ''a.jpg'')
   \<and> files (snd (reduce_image_size sample_lib ''a.jpg'' 10 jpeg_disk)) ''a.jpg'' = None"
  by code_simp

text \<open>
  C2 at a concrete input: the same JPEG with a ceiling of 2 bytes, below the 3 bytes of
  the encode at quality 0. The call returns and the file is gone.
\<close>

theorem unshrinkable_jpeg_is_deleted:
  "files jpeg_disk ''a.jpg'' = Some ''JPGxxxxxxxxx''
   \<and> encoded_size sample_lib ''JPGxxxxxxxxx'' ''a.jpg'' 0 = 3
   \<and> fst (reduce_image_size sample_lib ''a.jpg'' 2 jpeg_disk) = Inr ()
   \<and> files (snd (reduce_image_size sample_lib ''a.jpg'' 2 jpeg_disk)) ''a.jpg'' = None"
  by code_simp

section \<open>The folder walker\<close>

lemma submitted_append [simp]: "submitted (xs @ ys) = submitted xs @ submitted ys"
  by (induction xs rule: submitted.induct) simp_all

lemma finished_append [simp]: "finished (xs @ ys) = finished xs @ finished ys"
  by (induction xs rule: finished.induct) simp_all

lemma submitted_map_Submit [simp]: "submitted (map Submit ps) = ps"
  by (induction ps) simp_all

lemma finished_map_Submit [simp]: "finished (map Submit ps) = []"
  by (induction ps) simp_all

lemma submitted_map_Save [simp]: "submitted (map (Save p) qs) = []"
  by (induction qs) simp_all

lemma finished_map_Save [simp]: "finished (map (Save p) qs) = []"
  by (induction qs) simp_all

lemma files_emit [simp]: "files (emit ev st) = files st"
  by (simp add: emit_def)

lemma trace_emit [simp]: "trace (emit ev st) = trace st @ [ev]"
  by (simp add: emit_def)

lemma getsize_emit [simp]: "os_path_getsize p (emit ev st) = os_path_getsize p st"
  by (simp add: os_path_getsize_def)

lemma oversized_image_emit [simp]:
  "oversized_image (emit ev st) = oversized_image st"
  by (simp add: oversized_image_def fun_eq_iff)

lemma submit_oversized_files [simp]:
  "files (snd (submit_oversized foldername max_size filenames st)) = files st"
  by (induction filenames arbitrary: st) (auto simp: Let_def case_prod_beta split: sum.splits)

lemma submit_oversized_trace:
  "trace (snd (submit_oversized foldername max_size filenames st)) =
     trace st @ map Submit (fst (fst (submit_oversized foldername max_size filenames st)))"
  by (induction filenames arbitrary: st) (auto simp: Let_def case_prod_beta split: sum.splits)


lemma reduce_image_size_effect:
  "\<exists>wp qs. trace (snd (reduce_image_size lib p max_size st)) = trace st @ map (Save wp) qs"
proof (cases "image_open lib p st")
  case (Inl e)
  then have "trace (snd (reduce_image_size lib p max_size st)) = trace st @ map (Save p) []"
    by (simp add: reduce_image_size_def)
  then show ?thesis by blast
next
  case (Inr opened)
  obtain fmt img0 where opened: "opened = (fmt, img0)"
    by (cases opened)
  let ?wp = "working_path fmt p"
  let ?img = "working_image lib fmt img0"
  show ?thesis
  proof (cases "os_path_getsize ?wp st")
    case (Inl e)
    with Inr opened
    have "trace (snd (reduce_image_size lib p max_size st)) = trace st @ map (Save p) []"
      by (simp add: reduce_image_size_def)
    then show ?thesis by blast
  next
    case sz: (Inr sz)
    let ?qs = "loop_qualities lib ?img ?wp max_size sz 80"
    have "trace (snd (reduce_image_size lib p max_size st)) = trace st @ map (Save ?wp) ?qs"
      using Inr opened sz
      by (auto simp: reduce_image_size_def shrink_loop_eq Let_def trace_saves
            os_remove_def os_rename_def split: sum.splits option.splits)
    then show ?thesis by blast
  qed
qed

lemma reduce_image_size_files_other:
  assumes "q \<noteq> p" and "q \<noteq> fst (os_path_splitext p) @ ''.jpg''"
  shows "files (snd (reduce_image_size lib p max_size st)) q = files st q"
proof (cases "image_open lib p st")
  case (Inl e)
  then show ?thesis by (simp add: reduce_image_size_def)
next
  case (Inr opened)
  obtain fmt img0 where opened: "opened = (fmt, img0)"
    by (cases opened)
  have wp: "q \<noteq> working_path fmt p"
    using assms by (simp add: working_path_def)
  show ?thesis
    using Inr opened wp assms(1)
    by (auto simp: reduce_image_size_def shrink_loop_eq Let_def files_saves
          os_remove_def os_rename_def split: sum.splits option.splits)
qed

lemma run_tasks_effect:
  "\<exists>evs. trace (snd (run_tasks lib max_size ps st)) = trace st @ evs
     \<and> (\<forall>ev \<in> set evs. is_task_event ev)
     \<and> finished evs = ps
     \<and> (first_error (fst (run_tasks lib max_size ps st)) = None
          \<longrightarrow> (\<forall>ev \<in> set evs. \<not> is_failure ev))"
proof (induction ps arbitrary: st)
  case Nil
  show ?case by simp
next
  case (Cons p ps)
  let ?r = "fst (reduce_image_size lib p max_size st)"
  let ?st1 = "snd (reduce_image_size lib p max_size st)"
  let ?st2 = "emit (Finished p (outcome ?r)) ?st1"
  obtain wp qs where t1: "trace ?st1 = trace st @ map (Save wp) qs"
    using reduce_image_size_effect by blast
  obtain evs where t2: "trace (snd (run_tasks lib max_size ps ?st2)) = trace ?st2 @ evs"
    and task: "\<forall>ev \<in> set evs. is_task_event ev"
    and fin: "finished evs = ps"
    and ok: "first_error (fst (run_tasks lib max_size ps ?st2)) = None
              \<longrightarrow> (\<forall>ev \<in> set evs. \<not> is_failure ev)"
    using Cons.IH [of ?st2] by (elim exE conjE) (rule that)
  let ?evs = "map (Save wp) qs @ Finished p (outcome ?r) # evs"
  have run: "run_tasks lib max_size (p # ps) st =
      (?r # fst (run_tasks lib max_size ps ?st2), snd (run_tasks lib max_size ps ?st2))"
    by (simp add: case_prod_beta)
  have A: "trace (snd (run_tasks lib max_size (p # ps) st)) = trace st @ ?evs"
    by (simp add: case_prod_beta t2 t1)
  have B: "\<forall>ev \<in> set ?evs. is_task_event ev"
    using task by auto
  have C: "finished ?evs = p # ps"
    using fin by simp
  have D: "first_error (fst (run_tasks lib max_size (p # ps) st)) = None
      \<longrightarrow> (\<forall>ev \<in> set ?evs. \<not> is_failure ev)"
    using ok by (cases ?r) (auto simp: case_prod_beta outcome_def)
  show ?case
    by (rule exI [of _ ?evs]) (intro conjI A B C D)
qed

lemma run_tasks_files_other:
  assumes "\<forall>p \<in> set ps. q \<noteq> p \<and> q \<noteq> fst (os_path_splitext p) @ ''.jpg''"
  shows "files (snd (run_tasks lib max_size ps st)) q = files st q"
  using assms
  by (induction ps arbitrary: st) (simp_all add: case_prod_beta reduce_image_size_files_other)

lemma task_event_not_folder_event: "is_task_event ev \<Longrightarrow> \<not> is_folder_event ev"
  by (cases ev) simp_all

lemma submitted_task_events: "\<forall>ev \<in> set evs. is_task_event ev \<Longrightarrow> submitted evs = []"
  by (induction evs rule: submitted.induct) simp_all

lemma process_folder_effect:
  "\<exists>batch. trace (snd (process_folder lib pf max_size f names st))
        = trace st @ batch
            @ (case fst (process_folder lib pf max_size f names st) of
                 Inl e \<Rightarrow> [] | Inr u \<Rightarrow> [Append f])
     \<and> (\<forall>ev \<in> set batch. \<not> is_folder_event ev)
     \<and> finished batch = submitted batch
     \<and> (fst (process_folder lib pf max_size f names st) = Inr ()
          \<longrightarrow> (\<forall>ev \<in> set batch. \<not> is_failure ev))"
proof -
  let ?scan = "submit_oversized f max_size names st"
  let ?futures = "fst (fst ?scan)"
  let ?raised = "snd (fst ?scan)"
  let ?st1 = "snd ?scan"
  let ?pool = "run_tasks lib max_size ?futures ?st1"
  let ?results = "fst ?pool"
  let ?st2 = "snd ?pool"
  obtain evs where t2: "trace ?st2 = trace ?st1 @ evs"
    and task: "\<forall>ev \<in> set evs. is_task_event ev"
    and fin: "finished evs = ?futures"
    and ok: "first_error ?results = None \<longrightarrow> (\<forall>ev \<in> set evs. \<not> is_failure ev)"
    using run_tasks_effect [of lib max_size ?futures ?st1] by (elim exE conjE) (rule that)
  let ?batch = "map Submit ?futures @ evs"
  have pf: "process_folder lib pf max_size f names st =
      (case ?raised of
         Some e \<Rightarrow> (Inl e, ?st2)
       | None \<Rightarrow>
           (case first_error ?results of
              Some e \<Rightarrow> (Inl e, ?st2)
            | None \<Rightarrow> (Inr (), append_ledger pf f ?st2)))"
    by (simp add: process_folder_def case_prod_beta)
  have tr: "trace ?st2 = trace st @ ?batch"
    by (simp add: t2 submit_oversized_trace)
  have "trace (snd (process_folder lib pf max_size f names st))
        = trace st @ ?batch
            @ (case fst (process_folder lib pf max_size f names st) of
                 Inl e \<Rightarrow> [] | Inr u \<Rightarrow> [Append f])"
    by (simp add: pf tr append_ledger_def split: option.splits)
  moreover have "\<forall>ev \<in> set ?batch. \<not> is_folder_event ev"
    using task by (auto dest: task_event_not_folder_event)
  moreover have "finished ?batch = submitted ?batch"
    using fin task by (simp add: submitted_task_events)
  moreover have "fst (process_folder lib pf max_size f names st) = Inr ()
          \<longrightarrow> (\<forall>ev \<in> set ?batch. \<not> is_failure ev)"
    using ok by (auto simp: pf split: option.splits)
  ultimately show ?thesis by blast
qed

lemma run_shape_ok_append:
  "run_shape (Inr ()) evs1 \<Longrightarrow> run_shape r evs2 \<Longrightarrow> run_shape r (evs1 @ evs2)"
proof (cases r)
  case (Inl e)
  assume a: "run_shape (Inr ()) evs1" and b: "run_shape r evs2"
  from b Inl obtain before f batch where
    "evs2 = before @ Visit f # batch" "\<forall>ev \<in> set before. \<not> is_failure ev"
    "\<forall>ev \<in> set batch. \<not> is_folder_event ev" "finished batch = submitted batch"
    by (auto simp: run_shape_def)
  moreover from a have "\<forall>ev \<in> set evs1. \<not> is_failure ev"
    by (simp add: run_shape_def)
  ultimately have "evs1 @ evs2 = (evs1 @ before) @ Visit f # batch
      \<and> (\<forall>ev \<in> set (evs1 @ before). \<not> is_failure ev)
      \<and> (\<forall>ev \<in> set batch. \<not> is_folder_event ev) \<and> finished batch = submitted batch"
    by auto
  then show ?thesis
    unfolding run_shape_def Inl by (simp only: sum.case) blast
next
  case (Inr u)
  assume "run_shape (Inr ()) evs1" "run_shape r evs2"
  with Inr show ?thesis by (auto simp: run_shape_def)
qed

lemma walk_effect:
  "\<exists>evs. trace (snd (walk lib pf ex m pr f d st)) = trace st @ evs
      \<and> run_shape (fst (walk lib pf ex m pr f d st)) evs"
  and walk_subfolders_effect:
  "\<exists>evs. trace (snd (walk_subfolders lib pf ex m pr f ds st)) = trace st @ evs
      \<and> run_shape (fst (walk_subfolders lib pf ex m pr f ds st)) evs"
proof (induction lib pf ex m pr f d st and lib pf ex m pr f ds st
       rule: walk_walk_subfolders.induct)
  case (1 lib pf ex m pr f names subs st)
  let ?st0 = "emit (Visit f) st"
  show ?case
  proof (cases "is_excluded ex f")
    case True
    then have "trace (snd (walk lib pf ex m pr f (Dir names subs) st)) = trace st @ [Visit f]
        \<and> run_shape (fst (walk lib pf ex m pr f (Dir names subs) st)) [Visit f]"
      by (simp add: walk.simps run_shape_def)
    then show ?thesis by blast
  next
    case notex: False
    show ?thesis
    proof (cases "f \<in> set pr")
      case True
      have "\<exists>evs. trace (snd (walk_subfolders lib pf ex m pr f subs ?st0)) = trace ?st0 @ evs
          \<and> run_shape (fst (walk_subfolders lib pf ex m pr f subs ?st0)) evs"
        using "1.IH"(2) [OF refl notex] True by simp
      then obtain evs where
        te: "trace (snd (walk_subfolders lib pf ex m pr f subs ?st0)) = trace ?st0 @ evs"
        and sh: "run_shape (fst (walk_subfolders lib pf ex m pr f subs ?st0)) evs"
        by (elim exE conjE) (rule that)
      have w: "walk lib pf ex m pr f (Dir names subs) st
                = walk_subfolders lib pf ex m pr f subs ?st0"
        using notex True by (simp add: walk.simps)
      have first: "run_shape (Inr ()) [Visit f]"
        by (simp add: run_shape_def)
      have "trace (snd (walk lib pf ex m pr f (Dir names subs) st)) = trace st @ ([Visit f] @ evs)"
        using te by (simp add: w)
      moreover have "run_shape (fst (walk lib pf ex m pr f (Dir names subs) st)) ([Visit f] @ evs)"
        using run_shape_ok_append [OF first sh] by (simp add: w)
      ultimately show ?thesis by blast
    next
      case False
      let ?p = "process_folder lib pf m f names ?st0"
      obtain batch where
        tb: "trace (snd ?p) = trace ?st0 @ batch
               @ (case fst ?p of Inl e \<Rightarrow> [] | Inr u \<Rightarrow> [Append f])"
        and nf: "\<forall>ev \<in> set batch. \<not> is_folder_event ev"
        and fs: "finished batch = submitted batch"
        and ok: "fst ?p = Inr () \<longrightarrow> (\<forall>ev \<in> set batch. \<not> is_failure ev)"
        using process_folder_effect [of lib pf m f names ?st0] by (elim exE conjE) (rule that)
      show ?thesis
      proof (cases "fst ?p")
        case (Inl e)
        then have w: "walk lib pf ex m pr f (Dir names subs) st = (Inl e, snd ?p)"
          using notex False by (cases ?p) (simp add: walk.simps)
        have "trace (snd ?p) = trace st @ ([] @ Visit f # batch)"
          using tb Inl by simp
        moreover have "run_shape (Inl e) ([] @ Visit f # batch)"
          unfolding run_shape_def using nf fs by (simp only: sum.case) fastforce
        ultimately show ?thesis using w by auto
      next
        case (Inr u)
        then have p: "?p = (Inr u, snd ?p)"
          by (cases ?p) simp
        obtain evs where
          te: "trace (snd (walk_subfolders lib pf ex m pr f subs (snd ?p))) = trace (snd ?p) @ evs"
          and sh: "run_shape (fst (walk_subfolders lib pf ex m pr f subs (snd ?p))) evs"
          using "1.IH"(1) [OF refl notex False p [symmetric] refl] by (elim exE conjE) (rule that)
        have w: "walk lib pf ex m pr f (Dir names subs) st
                  = walk_subfolders lib pf ex m pr f subs (snd ?p)"
          using notex False Inr by (cases ?p) (simp add: walk.simps)
        have first: "run_shape (Inr ()) (Visit f # batch @ [Append f])"
          using ok Inr by (simp add: run_shape_def)
        have "trace (snd (walk lib pf ex m pr f (Dir names subs) st))
            = trace st @ ((Visit f # batch @ [Append f]) @ evs)"
          using te tb Inr by (simp add: w)
        moreover have "run_shape (fst (walk lib pf ex m pr f (Dir names subs) st))
            ((Visit f # batch @ [Append f]) @ evs)"
          using run_shape_ok_append [OF first sh] by (simp add: w)
        ultimately show ?thesis by blast
      qed
    qed
  qed
next
  case (2 lib pf ex m pr f st)
  show ?case by (simp add: walk_subfolders.simps run_shape_def)
next
  case (3 lib pf ex m pr f name d rest st)
  let ?w = "walk lib pf ex m pr (os_path_join f name) d st"
  obtain evs1 where t1: "trace (snd ?w) = trace st @ evs1" and s1: "run_shape (fst ?w) evs1"
    using "3.IH"(1) by (elim exE conjE) (rule that)
  show ?case
  proof (cases "fst ?w")
    case (Inl e)
    then have "walk_subfolders lib pf ex m pr f ((name, d) # rest) st = (Inl e, snd ?w)"
      by (cases ?w) (simp add: walk_subfolders.simps)
    with t1 s1 Inl show ?thesis by auto
  next
    case (Inr u)
    then have w: "?w = (Inr u, snd ?w)"
      by (cases ?w) simp
    obtain evs2 where
      t2: "trace (snd (walk_subfolders lib pf ex m pr f rest (snd ?w))) = trace (snd ?w) @ evs2"
      and s2: "run_shape (fst (walk_subfolders lib pf ex m pr f rest (snd ?w))) evs2"
      using "3.IH"(2) [OF w [symmetric] refl] by (elim exE conjE) (rule that)
    have ws: "walk_subfolders lib pf ex m pr f ((name, d) # rest) st
               = walk_subfolders lib pf ex m pr f rest (snd ?w)"
      using Inr by (cases ?w) (simp add: walk_subfolders.simps)
    have "run_shape (Inr ()) evs1"
      using s1 Inr by simp
    then have "run_shape (fst (walk_subfolders lib pf ex m pr f rest (snd ?w))) (evs1 @ evs2)"
      using s2 by (rule run_shape_ok_append)
    then show ?thesis
      using t1 t2 by (auto simp: ws)
  qed
qed

lemma process_images_effect:
  "\<exists>evs. trace (snd (process_images lib root ex m tree st)) = trace st @ evs
      \<and> run_shape (fst (process_images lib root ex m tree st)) evs"
  unfolding process_images_def Let_def by (rule walk_effect)

text \<open>
  C5, as the code has it. If a dispatched shrink task raises, \<^verbatim>\<open>process_images\<close>
  raises too, and the walk ends in the folder of that task: all tasks submitted for the
  folder still finish (the pool is waited for), but after the visit of that folder there
  is no append to the ledger and no visit of a later folder.
\<close>

theorem task_failure_aborts_walk:
  assumes "Finished p (Some e)
      \<in> set (drop (length (trace st)) (trace (snd (process_images lib root ex m tree st))))"
  shows "\<exists>e' before f batch.
       fst (process_images lib root ex m tree st) = Inl e'
     \<and> trace (snd (process_images lib root ex m tree st)) = trace st @ before @ Visit f # batch
     \<and> Finished p (Some e) \<in> set batch
     \<and> finished batch = submitted batch
     \<and> (\<forall>g. Visit g \<notin> set batch \<and> Append g \<notin> set batch)"
proof -
  let ?R = "process_images lib root ex m tree st"
  obtain evs where tr: "trace (snd ?R) = trace st @ evs" and sh: "run_shape (fst ?R) evs"
    using process_images_effect [of lib root ex m tree st] by (elim exE conjE) (rule that)
  have failed: "Finished p (Some e) \<in> set evs"
    using assms by (simp add: tr)
  have fail: "is_failure (Finished p (Some e))"
    by simp
  show ?thesis
  proof (cases "fst ?R")
    case (Inr u)
    then have "\<forall>ev \<in> set evs. \<not> is_failure ev"
      using sh by (simp add: run_shape_def)
    with failed fail show ?thesis by blast
  next
    case (Inl e')
    then obtain before f batch where
      evs: "evs = before @ Visit f # batch"
      and clean: "\<forall>ev \<in> set before. \<not> is_failure ev"
      and nofolder: "\<forall>ev \<in> set batch. \<not> is_folder_event ev"
      and all_ran: "finished batch = submitted batch"
      using sh by (auto simp: run_shape_def)
    have inbatch: "Finished p (Some e) \<in> set batch"
      using failed fail clean by (auto simp: evs)
    have none: "\<forall>g. Visit g \<notin> set batch \<and> Append g \<notin> set batch"
      using nofolder by fastforce
    have "fst ?R = Inl e' \<and> trace (snd ?R) = trace st @ before @ Visit f # batch
       \<and> Finished p (Some e) \<in> set batch \<and> finished batch = submitted batch
       \<and> (\<forall>g. Visit g \<notin> set batch \<and> Append g \<notin> set batch)"
      using Inl tr evs inbatch all_ran none by simp
    then show ?thesis by blast
  qed
qed

theorem task_failure_aborts_walk_witness:
  "Finished ''r/a.png'' (Some (FileNotFoundError ''r/a.jpg''))
      \<in> set (drop (length (trace two_png_disk))
           (trace (snd (process_images sample_lib ''r'' [] 10 two_png_tree two_png_disk))))
   \<and> (\<exists>e' before f batch.
       fst (process_images sample_lib ''r'' [] 10 two_png_tree two_png_disk) = Inl e'
     \<and> trace (snd (process_images sample_lib ''r'' [] 10 two_png_tree two_png_disk))
         = trace two_png_disk @ before @ Visit f # batch
     \<and> Finished ''r/a.png'' (Some (FileNotFoundError ''r/a.jpg'')) \<in> set batch
     \<and> finished batch = submitted batch
     \<and> (\<forall>g. Visit g \<notin> set batch \<and> Append g \<notin> set batch))"
proof -
  have h: "Finished ''r/a.png'' (Some (FileNotFoundError ''r/a.jpg''))
      \<in> set (drop (length (trace two_png_disk))
           (trace (snd (process_images sample_lib ''r'' [] 10 two_png_tree two_png_disk))))"
    by code_simp
  show ?thesis
    using task_failure_aborts_walk [OF h] h by (intro conjI)
qed

text \<open>
  C5 as the specification states it fails. Two oversized PNG files without a \<^verbatim>\<open>.jpg\<close>
  beside them make both tasks raise: both tasks run, but the walk raises, the subfolder
  \<^verbatim>\<open>r/s\<close> is never visited and no ledger is written.
\<close>

theorem failed_task_stops_walk_counterexample:
  "fst (process_images sample_lib ''r'' [] 10 two_png_tree two_png_disk)
     = Inl (FileNotFoundError ''r/a.jpg'')
   \<and> trace (snd (process_images sample_lib ''r'' [] 10 two_png_tree two_png_disk))
     = [Visit ''r'', Submit ''r/a.png'', Submit ''r/b.png'',
        Finished ''r/a.png'' (Some (FileNotFoundError ''r/a.jpg'')),
        Finished ''r/b.png'' (Some (FileNotFoundError ''r/b.jpg''))]
   \<and> files (snd (process_images sample_lib ''r'' [] 10 two_png_tree two_png_disk))
        ''r/.processed_folders.txt'' = None"
  by code_simp






lemma walk_prune:
  "walk lib pf ex m pr f d st = walk lib pf ex m pr f (prune ex f d) st"
  and walk_subfolders_prune:
  "walk_subfolders lib pf ex m pr f ds st
     = walk_subfolders lib pf ex m pr f (prune_subfolders ex f ds) st"
proof (induction lib pf ex m pr f d st and lib pf ex m pr f ds st
       rule: walk_walk_subfolders.induct)
  case (1 lib pf ex m pr f names subs st)
  show ?case
  proof (cases "is_excluded ex f")
    case True
    then show ?thesis by (simp add: walk.simps)
  next
    case False
    show ?thesis
    proof (cases "f \<in> set pr")
      case True
      with False "1.IH"(2) [OF refl False] show ?thesis
        by (simp add: walk.simps)
    next
      case nl: False
      show ?thesis
      proof (cases "process_folder lib pf m f names (emit (Visit f) st)")
        case (Pair r st1)
        show ?thesis
        proof (cases r)
          case (Inl e)
          with Pair False nl show ?thesis by (simp add: walk.simps)
        next
          case (Inr u)
          with Pair False nl "1.IH"(1) [OF refl False nl Pair [symmetric] Inr]
          show ?thesis by (simp add: walk.simps)
        qed
      qed
    qed
  qed
next
  case (2 lib pf ex m pr f st)
  show ?case by simp
next
  case (3 lib pf ex m pr f name d rest st)
  show ?case
  proof (cases "walk lib pf ex m pr (os_path_join f name) d st")
    case (Pair r st1)
    show ?thesis
    proof (cases r)
      case (Inl e)
      with Pair "3.IH"(1) show ?thesis by (simp add: walk_subfolders.simps)
    next
      case (Inr u)
      with Pair "3.IH"(1) "3.IH"(2) [OF Pair [symmetric] Inr]
      show ?thesis by (simp add: walk_subfolders.simps)
    qed
  qed
qed

text \<open>
  C8: the walk leaves an excluded folder at once, with nothing but its visit recorded,
  whatever files and subfolders it has; and the whole run (disk, result and trace, so
  every scan, submission and visit) is the same for two trees that differ only inside
  excluded folders, for instance a tree and the same tree with the excluded folders
  emptied.
\<close>

theorem excluded_folders_are_never_entered:
  "(is_excluded excluded_folders foldername \<longrightarrow>
      walk lib processed_file excluded_folders max_size processed_folders foldername
        (Dir filenames subfolders) st = (Inr (), emit (Visit foldername) st))
   \<and> (prune excluded_folders root_folder tree1 = prune excluded_folders root_folder tree2 \<longrightarrow>
      process_images lib root_folder excluded_folders max_size tree1 st
        = process_images lib root_folder excluded_folders max_size tree2 st)"
proof (intro conjI impI)
  assume "is_excluded excluded_folders foldername"
  then show "walk lib processed_file excluded_folders max_size processed_folders foldername
        (Dir filenames subfolders) st = (Inr (), emit (Visit foldername) st)"
    by (simp add: walk.simps)
next
  assume eq: "prune excluded_folders root_folder tree1 = prune excluded_folders root_folder tree2"
  have "process_images lib root_folder excluded_folders max_size tree st
      = process_images lib root_folder excluded_folders max_size
          (prune excluded_folders root_folder tree) st" for tree
    unfolding process_images_def Let_def by (rule walk_prune)
  from this [of tree1] this [of tree2] eq
  show "process_images lib root_folder excluded_folders max_size tree1 st
        = process_images lib root_folder excluded_folders max_size tree2 st"
    by simp
qed

theorem excluded_folders_are_never_entered_witness:
  "is_excluded [''b''] ''root/b''
   \<and> walk sample_lib ''root/.processed_folders.txt'' [''b''] 10 [] ''root/b''
        (Dir [''img2.jpg''] [(''c'', Dir [''img3.jpg''] [])]) album_disk
       = (Inr (), emit (Visit ''root/b'') album_disk)
   \<and> prune [''b''] ''root'' album_tree = prune [''b''] ''root'' album_tree_without_b
   \<and> process_images sample_lib ''root'' [''b''] 10 album_tree album_disk
        = process_images sample_lib ''root'' [''b''] 10 album_tree_without_b album_disk"
proof -
  have h1: "is_excluded [''b''] ''root/b''"
    by code_simp
  have h2: "prune [''b''] ''root'' album_tree = prune [''b''] ''root'' album_tree_without_b"
    by code_simp
  show ?thesis
    using excluded_folders_are_never_entered
      [of "[''b'']" "''root/b''" sample_lib "''root/.processed_folders.txt''" 10 "[]"
          "[''img2.jpg'']" "[(''c'', Dir [''img3.jpg''] [])]" album_disk
          "''root''" album_tree album_tree_without_b]
      h1 h2
    by blast
qed

section \<open>Running the walk twice\<close>

lemma universal_newlines_no_cr: "CHR 0x0D \<notin> set s \<Longrightarrow> universal_newlines s = s"
  by (induction s rule: universal_newlines.induct) auto

lemma universal_newlines_append:
  "ends_with_newline c \<Longrightarrow>
     universal_newlines (c @ r) = universal_newlines c @ universal_newlines r"
proof (induction c rule: universal_newlines.induct)
  case 1
  show ?case by simp
next
  case (2 x)
  then have "x = CHR 0x0A" by (simp add: ends_with_newline_def)
  then show ?case by (cases r) simp_all
next
  case (3 x y cs)
  have tl1: "ends_with_newline (y # cs)" and tl2: "ends_with_newline cs"
    using "3.prems" by (auto simp: ends_with_newline_def split: if_splits)
  show ?case
    using "3.IH" tl1 tl2 by simp
qed

lemma universal_newlines_Nil [simp]: "universal_newlines s = [] \<longleftrightarrow> s = []"
  by (induction s rule: universal_newlines.induct) auto

lemma universal_newlines_ends:
  "ends_with_newline c \<Longrightarrow> ends_with_newline (universal_newlines c)"
  by (induction c rule: universal_newlines.induct)
    (auto simp: ends_with_newline_def split: if_splits)

lemma splitlines_from_append:
  "ends_with_newline c \<Longrightarrow> c \<noteq> [] \<Longrightarrow>
     splitlines_from line (c @ r) = splitlines_from line c @ splitlines_from [] r"
proof (induction line c rule: splitlines_from.induct)
  case (1 line)
  then show ?case by simp
next
  case (2 line x)
  then have x: "x = CHR 0x0A" by (simp add: ends_with_newline_def)
  show ?case
    by (cases r) (simp_all add: x is_linebreak_def)
next
  case (3 line x y cs)
  have tl1: "ends_with_newline (y # cs)"
    using "3.prems" by (auto simp: ends_with_newline_def split: if_splits)
  have tl2: "ends_with_newline cs"
    using "3.prems" by (auto simp: ends_with_newline_def split: if_splits)
  show ?case
  proof (cases "cs = []")
    case True
    then have y: "y = CHR 0x0A"
      using "3.prems" by (simp add: ends_with_newline_def)
    show ?thesis
      using True y by (cases r) (auto simp: is_linebreak_def)
  next
    case False
    then show ?thesis
      using "3.IH" tl1 tl2 by simp
  qed
qed

lemma splitlines_from_clean_line:
  "\<not> list_ex is_linebreak l \<Longrightarrow> splitlines_from line (l @ [CHR 0x0A]) = [line @ l]"
proof (induction l arbitrary: line)
  case Nil
  show ?case by (simp add: is_linebreak_def)
next
  case (Cons x xs)
  then have nb: "\<not> is_linebreak x" and rest: "\<not> list_ex is_linebreak xs"
    by simp_all
  have "x \<noteq> CHR 0x0D"
    using nb by (auto simp: is_linebreak_def)
  then show ?case
    using nb Cons.IH [OF rest, of "line @ [x]"] by (cases xs) simp_all
qed

lemma clean_no_cr: "\<not> list_ex is_linebreak l \<Longrightarrow> CHR 0x0D \<notin> set l"
  by (auto simp: list_ex_iff is_linebreak_def)

lemma read_lines_append:
  assumes "ends_with_newline c" and "\<not> list_ex is_linebreak l"
  shows "splitlines (universal_newlines (c @ l @ [CHR 0x0A]))
           = splitlines (universal_newlines c) @ [l]"
proof -
  have line: "universal_newlines (l @ [CHR 0x0A]) = l @ [CHR 0x0A]"
    using clean_no_cr [OF assms(2)] by (simp add: universal_newlines_no_cr)
  have un: "universal_newlines (c @ l @ [CHR 0x0A]) = universal_newlines c @ l @ [CHR 0x0A]"
    using assms(1) by (simp only: universal_newlines_append line)
  show ?thesis
  proof (cases "c = []")
    case True
    then show ?thesis
      using assms(2) by (simp add: line splitlines_def splitlines_from_clean_line)
  next
    case False
    then have ne: "universal_newlines c \<noteq> []"
      by simp
    have "splitlines_from [] (universal_newlines c @ l @ [CHR 0x0A])
        = splitlines_from [] (universal_newlines c) @ splitlines_from [] (l @ [CHR 0x0A])"
      using universal_newlines_ends [OF assms(1)] ne by (rule splitlines_from_append)
    then show ?thesis
      using assms(2) by (simp add: un splitlines_def splitlines_from_clean_line)
  qed
qed

lemma ends_with_newline_append: "ends_with_newline (c @ l @ [CHR 0x0A])"
  by (simp add: ends_with_newline_def)

lemma read_ledger_lines:
  assumes "ends_with_newline c" and "\<forall>l \<in> set ls. \<not> list_ex is_linebreak l"
  shows "splitlines (universal_newlines (c @ ledger_lines ls))
           = splitlines (universal_newlines c) @ ls"
  using assms
proof (induction ls arbitrary: c)
  case Nil
  show ?case by (simp add: ledger_lines_def)
next
  case (Cons l ls)
  have "splitlines (universal_newlines ((c @ l @ [CHR 0x0A]) @ ledger_lines ls))
      = splitlines (universal_newlines (c @ l @ [CHR 0x0A])) @ ls"
    using Cons.prems by (intro Cons.IH ends_with_newline_append) simp
  then show ?case
    using Cons.prems by (simp add: ledger_lines_def read_lines_append)
qed

lemma os_path_join_last: "p \<noteq> [] \<Longrightarrow> last (os_path_join a p) = last p"
  by (simp add: os_path_join_def)

lemma lower_char_t: "lower_char CHR ''t'' = CHR ''t''"
  by code_simp

lemma is_image_name_last: "is_image_name name \<Longrightarrow> name \<noteq> [] \<and> last name \<noteq> CHR ''t''"
proof -
  assume "is_image_name name"
  then obtain xs where "lower name = xs @ ''.png'' \<or> lower name = xs @ ''.jpg''
      \<or> lower name = xs @ ''.jpeg''"
    by (auto simp: is_image_name_def endswith_def suffix_def)
  then have ne: "lower name \<noteq> []" and g: "last (lower name) = CHR ''g''"
    by auto
  from ne have name: "name \<noteq> []"
    by (auto simp: lower_def)
  with g have "lower_char (last name) = CHR ''g''"
    by (simp add: lower_def last_map)
  then have "last name \<noteq> CHR ''t''"
    by (auto simp: lower_char_t)
  with name show ?thesis by simp
qed

lemma submit_oversized_futures_names:
  "p \<in> set (fst (fst (submit_oversized f max_size names st))) \<Longrightarrow>
     \<exists>name \<in> set names. is_image_name name \<and> p = os_path_join f name"
  by (induction names arbitrary: st)
    (auto simp: Let_def case_prod_beta split: sum.splits if_splits)

lemma ledger_text_emit [simp]: "ledger_text pf (emit ev st) = ledger_text pf st"
  by (simp add: ledger_text_def)

lemma process_folder_ledger:
  assumes "pf \<noteq> []" and "last pf = CHR ''t''"
  shows "ledger_text pf (snd (process_folder lib pf max_size f names st))
     = ledger_text pf st
         @ (case fst (process_folder lib pf max_size f names st) of
              Inl e \<Rightarrow> [] | Inr u \<Rightarrow> f @ [CHR 0x0A])"
proof -
  let ?scan = "submit_oversized f max_size names st"
  let ?futures = "fst (fst ?scan)"
  let ?st2 = "snd (run_tasks lib max_size ?futures (snd ?scan))"
  have "\<forall>p \<in> set ?futures. pf \<noteq> p \<and> pf \<noteq> fst (os_path_splitext p) @ ''.jpg''"
  proof
    fix p assume "p \<in> set ?futures"
    then obtain name where "is_image_name name" and p: "p = os_path_join f name"
      using submit_oversized_futures_names by blast
    then have "last p \<noteq> CHR ''t''"
      using is_image_name_last [of name] by (simp add: os_path_join_last)
    then show "pf \<noteq> p \<and> pf \<noteq> fst (os_path_splitext p) @ ''.jpg''"
      using assms by auto
  qed
  then have "files ?st2 pf = files st pf"
    by (simp add: run_tasks_files_other)
  then have same: "ledger_text pf ?st2 = ledger_text pf st"
    by (simp add: ledger_text_def)
  show ?thesis
    using same
    by (auto simp: process_folder_def case_prod_beta append_ledger_def ledger_text_def
          split: option.splits)
qed

lemma ledger_lines_append [simp]:
  "ledger_lines (xs @ ys) = ledger_lines xs @ ledger_lines ys"
  by (simp add: ledger_lines_def)

lemma ledger_lines_Cons: "ledger_lines (x # xs) = x @ [CHR 0x0A] @ ledger_lines xs"
  by (simp add: ledger_lines_def)

lemma walk_ledger:
  "fst (walk lib pf ex m pr f d st) = Inr () \<Longrightarrow> pf \<noteq> [] \<Longrightarrow> last pf = CHR ''t'' \<Longrightarrow>
     \<exists>app. ledger_text pf (snd (walk lib pf ex m pr f d st))
               = ledger_text pf st @ ledger_lines app
         \<and> set app \<subseteq> set (walked ex f d)
         \<and> set (walked ex f d) \<subseteq> set pr \<union> set app"
  and walk_subfolders_ledger:
  "fst (walk_subfolders lib pf ex m pr f ds st) = Inr () \<Longrightarrow> pf \<noteq> [] \<Longrightarrow> last pf = CHR ''t'' \<Longrightarrow>
     \<exists>app. ledger_text pf (snd (walk_subfolders lib pf ex m pr f ds st))
               = ledger_text pf st @ ledger_lines app
         \<and> set app \<subseteq> set (walked_subfolders ex f ds)
         \<and> set (walked_subfolders ex f ds) \<subseteq> set pr \<union> set app"
proof (induction lib pf ex m pr f d st and lib pf ex m pr f ds st
       rule: walk_walk_subfolders.induct)
  case (1 lib pf ex m pr f names subs st)
  let ?st0 = "emit (Visit f) st"
  note pf = "1.prems"(2,3)
  show ?case
  proof (cases "is_excluded ex f")
    case True
    then have "ledger_text pf (snd (walk lib pf ex m pr f (Dir names subs) st))
        = ledger_text pf st @ ledger_lines []"
      by (simp add: walk.simps ledger_lines_def)
    moreover have "walked ex f (Dir names subs) = []"
      using True by simp
    ultimately show ?thesis by (intro exI [of _ "[]"]) simp
  next
    case notex: False
    show ?thesis
    proof (cases "f \<in> set pr")
      case True
      have w: "walk lib pf ex m pr f (Dir names subs) st
                = walk_subfolders lib pf ex m pr f subs ?st0"
        using notex True by (simp add: walk.simps)
      have "\<exists>app. ledger_text pf (snd (walk_subfolders lib pf ex m pr f subs ?st0))
               = ledger_text pf ?st0 @ ledger_lines app
         \<and> set app \<subseteq> set (walked_subfolders ex f subs)
         \<and> set (walked_subfolders ex f subs) \<subseteq> set pr \<union> set app"
        using "1.IH"(2) [OF refl notex] True "1.prems" by (simp add: w)
      then obtain app where
        a1: "ledger_text pf (snd (walk_subfolders lib pf ex m pr f subs ?st0))
               = ledger_text pf st @ ledger_lines app"
        and a2: "set app \<subseteq> set (walked_subfolders ex f subs)"
        and a3: "set (walked_subfolders ex f subs) \<subseteq> set pr \<union> set app"
        by auto
      show ?thesis
        using a1 a2 a3 True notex by (intro exI [of _ app]) (auto simp: w)
    next
      case False
      let ?p = "process_folder lib pf m f names ?st0"
      have w: "walk lib pf ex m pr f (Dir names subs) st
          = (case ?p of (Inl e, st1) \<Rightarrow> (Inl e, st1)
             | (Inr u, st1) \<Rightarrow> walk_subfolders lib pf ex m pr f subs st1)"
        using notex False by (simp add: walk.simps)
      have ok: "fst ?p = Inr ()"
        using "1.prems"(1) by (cases ?p; cases "fst ?p") (auto simp: w)
      then have p: "?p = (Inr (), snd ?p)"
        by (cases ?p) simp
      have w': "walk lib pf ex m pr f (Dir names subs) st
          = walk_subfolders lib pf ex m pr f subs (snd ?p)"
        using ok by (simp add: w case_prod_beta)
      have led: "ledger_text pf (snd ?p) = ledger_text pf st @ f @ [CHR 0x0A]"
        using process_folder_ledger [OF pf, of lib m f names ?st0] ok by simp
      have "\<exists>app. ledger_text pf (snd (walk_subfolders lib pf ex m pr f subs (snd ?p)))
               = ledger_text pf (snd ?p) @ ledger_lines app
         \<and> set app \<subseteq> set (walked_subfolders ex f subs)
         \<and> set (walked_subfolders ex f subs) \<subseteq> set pr \<union> set app"
        using "1.IH"(1) [OF refl notex False p [symmetric] refl] "1.prems" by (simp add: w')
      then obtain app where
        a1: "ledger_text pf (snd (walk_subfolders lib pf ex m pr f subs (snd ?p)))
               = ledger_text pf (snd ?p) @ ledger_lines app"
        and a2: "set app \<subseteq> set (walked_subfolders ex f subs)"
        and a3: "set (walked_subfolders ex f subs) \<subseteq> set pr \<union> set app"
        by auto
      show ?thesis
        using a1 a2 a3 notex led
        by (intro exI [of _ "f # app"]) (auto simp: w' ledger_lines_Cons)
    qed
  qed
next
  case (2 lib pf ex m pr f st)
  show ?case
    by (intro exI [of _ "[]"]) (simp add: walk_subfolders.simps ledger_lines_def)
next
  case (3 lib pf ex m pr f name d rest st)
  let ?w = "walk lib pf ex m pr (os_path_join f name) d st"
  have ws: "walk_subfolders lib pf ex m pr f ((name, d) # rest) st
      = (case ?w of (Inl e, st1) \<Rightarrow> (Inl e, st1)
         | (Inr u, st1) \<Rightarrow> walk_subfolders lib pf ex m pr f rest st1)"
    by (simp add: walk_subfolders.simps)
  have ok: "fst ?w = Inr ()"
    using "3.prems"(1) by (cases ?w; cases "fst ?w") (auto simp: ws)
  then have w: "?w = (Inr (), snd ?w)"
    by (cases ?w) simp
  have ws': "walk_subfolders lib pf ex m pr f ((name, d) # rest) st
      = walk_subfolders lib pf ex m pr f rest (snd ?w)"
    using ok by (simp add: ws case_prod_beta)
  obtain app1 where
    a1: "ledger_text pf (snd ?w) = ledger_text pf st @ ledger_lines app1"
    and a2: "set app1 \<subseteq> set (walked ex (os_path_join f name) d)"
    and a3: "set (walked ex (os_path_join f name) d) \<subseteq> set pr \<union> set app1"
    using "3.IH"(1) [OF ok "3.prems"(2,3)] by auto
  have "\<exists>app. ledger_text pf (snd (walk_subfolders lib pf ex m pr f rest (snd ?w)))
               = ledger_text pf (snd ?w) @ ledger_lines app
         \<and> set app \<subseteq> set (walked_subfolders ex f rest)
         \<and> set (walked_subfolders ex f rest) \<subseteq> set pr \<union> set app"
    using "3.IH"(2) [OF w [symmetric] refl] "3.prems" by (simp add: ws')
  then obtain app2 where
    b1: "ledger_text pf (snd (walk_subfolders lib pf ex m pr f rest (snd ?w)))
               = ledger_text pf (snd ?w) @ ledger_lines app2"
    and b2: "set app2 \<subseteq> set (walked_subfolders ex f rest)"
    and b3: "set (walked_subfolders ex f rest) \<subseteq> set pr \<union> set app2"
    by auto
  show ?case
    using a1 a2 a3 b1 b2 b3
    by (intro exI [of _ "app1 @ app2"]) (auto simp: ws')
qed

lemma walk_all_processed:
  "set (walked ex f d) \<subseteq> set pr \<Longrightarrow>
     \<exists>fs. walk lib pf ex m pr f d st = (Inr (), st\<lparr>trace := trace st @ map Visit fs\<rparr>)"
  and walk_subfolders_all_processed:
  "set (walked_subfolders ex f ds) \<subseteq> set pr \<Longrightarrow>
     \<exists>fs. walk_subfolders lib pf ex m pr f ds st
            = (Inr (), st\<lparr>trace := trace st @ map Visit fs\<rparr>)"
proof (induction lib pf ex m pr f d st and lib pf ex m pr f ds st
       rule: walk_walk_subfolders.induct)
  case (1 lib pf ex m pr f names subs st)
  show ?case
  proof (cases "is_excluded ex f")
    case True
    then show ?thesis
      by (intro exI [of _ "[f]"]) (simp add: walk.simps emit_def)
  next
    case False
    then have inpr: "f \<in> set pr" and sub: "set (walked_subfolders ex f subs) \<subseteq> set pr"
      using "1.prems" by simp_all
    obtain fs where "walk_subfolders lib pf ex m pr f subs (emit (Visit f) st)
        = (Inr (), (emit (Visit f) st)\<lparr>trace := trace (emit (Visit f) st) @ map Visit fs\<rparr>)"
      using "1.IH"(2) [OF refl False _ sub] inpr by auto
    then show ?thesis
      using False inpr by (intro exI [of _ "f # fs"]) (simp add: walk.simps emit_def)
  qed
next
  case (2 lib pf ex m pr f st)
  show ?case
    by (intro exI [of _ "[]"]) (simp add: walk_subfolders.simps)
next
  case (3 lib pf ex m pr f name d rest st)
  have s1: "set (walked ex (os_path_join f name) d) \<subseteq> set pr"
    and s2: "set (walked_subfolders ex f rest) \<subseteq> set pr"
    using "3.prems" by simp_all
  obtain fs1 where w: "walk lib pf ex m pr (os_path_join f name) d st
      = (Inr (), st\<lparr>trace := trace st @ map Visit fs1\<rparr>)"
    using "3.IH"(1) [OF s1] by auto
  obtain fs2 where "walk_subfolders lib pf ex m pr f rest (st\<lparr>trace := trace st @ map Visit fs1\<rparr>)
      = (Inr (), st\<lparr>trace := trace st @ map Visit fs1\<rparr>
                  \<lparr>trace := trace (st\<lparr>trace := trace st @ map Visit fs1\<rparr>) @ map Visit fs2\<rparr>)"
    using "3.IH"(2) [OF w [symmetric] refl s2] by auto
  then show ?case
    using w by (intro exI [of _ "fs1 @ fs2"]) (simp add: walk_subfolders.simps)
qed

lemma load_ledger_text:
  "load_ledger pf st = splitlines (universal_newlines (ledger_text pf st))"
  by (simp add: load_ledger_def read_text_def os_path_isfile_def ledger_text_def splitlines_def
        split: option.splits)

text \<open>
  C7, as the code gives it. If the first run returns (no task and no size probe raised),
  the ledger file it started from was missing, empty or ended with a line feed, and no
  folder it worked on has a line-break character in its path, then a second run that
  reaches no other folders returns too, leaves every file as it is, the ledger included,
  and adds nothing to the trace but visits of folders: no scan finds a folder to work on,
  no task is submitted, nothing is encoded and nothing is appended.
\<close>

theorem second_run_changes_nothing:
  assumes "fst (process_images lib root ex m tree st) = Inr ()"
    and "ends_with_newline (ledger_text (os_path_join root ''.processed_folders.txt'') st)"
    and "\<forall>g \<in> set (walked ex root tree). \<not> list_ex is_linebreak g"
    and "set (walked ex root tree2) \<subseteq> set (walked ex root tree)"
  shows "\<exists>fs. process_images lib root ex m tree2 (snd (process_images lib root ex m tree st))
       = (Inr (),
          (snd (process_images lib root ex m tree st))
            \<lparr>trace := trace (snd (process_images lib root ex m tree st)) @ map Visit fs\<rparr>)"
proof -
  let ?pf = "os_path_join root ''.processed_folders.txt''"
  let ?pr = "load_ledger ?pf st"
  let ?st1 = "snd (process_images lib root ex m tree st)"
  have pf: "?pf \<noteq> []" "last ?pf = CHR ''t''"
    by (simp_all add: os_path_join_def startswith_def)
  have run1: "process_images lib root ex m tree st = walk lib ?pf ex m ?pr root tree st"
    by (simp add: process_images_def Let_def)
  obtain app where
    led: "ledger_text ?pf ?st1 = ledger_text ?pf st @ ledger_lines app"
    and app: "set app \<subseteq> set (walked ex root tree)"
    and all: "set (walked ex root tree) \<subseteq> set ?pr \<union> set app"
    using walk_ledger [of lib ?pf ex m ?pr root tree st] assms(1) pf
    by (auto simp: run1)
  have "\<forall>l \<in> set app. \<not> list_ex is_linebreak l"
    using app assms(3) by blast
  then have "load_ledger ?pf ?st1 = ?pr @ app"
    using assms(2) by (simp add: load_ledger_text led read_ledger_lines)
  then have "set (walked ex root tree2) \<subseteq> set (load_ledger ?pf ?st1)"
    using all assms(4) by auto
  then obtain fs where
    "walk lib ?pf ex m (load_ledger ?pf ?st1) root tree2 ?st1
       = (Inr (), ?st1\<lparr>trace := trace ?st1 @ map Visit fs\<rparr>)"
    using walk_all_processed by blast
  then show ?thesis
    by (intro exI [of _ fs]) (simp add: process_images_def [of lib root ex m tree2] Let_def)
qed

theorem second_run_changes_nothing_witness:
  "fst (process_images sample_lib ''root'' [''b''] 10 small_tree small_disk) = Inr ()
   \<and> ends_with_newline (ledger_text (os_path_join ''root'' ''.processed_folders.txt'') small_disk)
   \<and> walked [''b''] ''root'' small_tree = [''root'', ''root/a'']
   \<and> \<not> list_ex is_linebreak ''root'' \<and> \<not> list_ex is_linebreak ''root/a''
   \<and> set (walked [''b''] ''root'' small_tree_after) \<subseteq> set (walked [''b''] ''root'' small_tree)
   \<and> (\<exists>fs. process_images sample_lib ''root'' [''b''] 10 small_tree_after
              (snd (process_images sample_lib ''root'' [''b''] 10 small_tree small_disk))
       = (Inr (),
          (snd (process_images sample_lib ''root'' [''b''] 10 small_tree small_disk))
            \<lparr>trace := trace (snd (process_images sample_lib ''root'' [''b''] 10 small_tree
                                small_disk)) @ map Visit fs\<rparr>))"
proof -
  have h1: "fst (process_images sample_lib ''root'' [''b''] 10 small_tree small_disk) = Inr ()"
    by code_simp
  have h2: "ends_with_newline
      (ledger_text (os_path_join ''root'' ''.processed_folders.txt'') small_disk)"
    by code_simp
  have w: "walked [''b''] ''root'' small_tree = [''root'', ''root/a'']"
    by code_simp
  have c: "\<not> list_ex is_linebreak ''root'' \<and> \<not> list_ex is_linebreak ''root/a''"
    by code_simp
  have h3: "\<forall>g \<in> set (walked [''b''] ''root'' small_tree). \<not> list_ex is_linebreak g"
    using c by (simp add: w)
  have w2: "walked [''b''] ''root'' small_tree_after = [''root'', ''root/a'']"
    by code_simp
  have h4: "set (walked [''b''] ''root'' small_tree_after)
      \<subseteq> set (walked [''b''] ''root'' small_tree)"
    by (simp only: w w2)
  show ?thesis
    using second_run_changes_nothing [OF h1 h2 h3 h4] h1 h2 w c h4 by blast
qed

text \<open>
  C7 as the specification states it fails, in three ways. After a first run that raised
  (two oversized PNG files without a \<^verbatim>\<open>.jpg\<close> beside them) the second run finds the
  folder in no ledger and submits the same tasks again. A folder whose name holds a line
  feed is read back from the ledger as two lines, so the second run appends it again.
  A ledger whose last line has no line feed glues the first appended path to that line,
  so the second run appends the path again.
\<close>

theorem second_run_idle_counterexample:
  "rerun sample_lib ''r'' [] 10 two_png_tree two_png_tree two_png_disk
     = (Inl (FileNotFoundError ''r/a.jpg''),
        [Visit ''r'', Submit ''r/a.png'', Submit ''r/b.png'',
         Finished ''r/a.png'' (Some (FileNotFoundError ''r/a.jpg'')),
         Finished ''r/b.png'' (Some (FileNotFoundError ''r/b.jpg''))])
   \<and> rerun sample_lib ''r'' [] 10 newline_tree newline_tree (disk [])
     = (Inr (), [Visit ''r'', Visit [CHR ''r'', CHR ''/'', CHR ''a'', CHR 0x0A, CHR ''b''],
                 Append [CHR ''r'', CHR ''/'', CHR ''a'', CHR 0x0A, CHR ''b'']])
   \<and> rerun sample_lib ''r'' [] 10 (Dir [] []) (Dir [''.processed_folders.txt''] [])
         unterminated_ledger_disk
     = (Inr (), [Visit ''r'', Append ''r''])"
  by code_simp

end
